theory Spec2Isabelle
  imports Main "HOL-Library.Word"
begin

section \<open>The input stream\<close>

text \<open>
  The reader pulls bytes from a \<open>wxInputStream\<close>. The stream class belongs to the
  wxWidgets library, so only the three operations the reader calls are modelled, as the
  library documents them: \<open>GetC\<close> returns the next byte, or \<open>EOF\<close> (-1) when there is
  none; \<open>Ungetch\<close> puts one byte back in front of the unread ones; \<open>Eof\<close> is true once
  a read has been attempted past the last byte.
\<close>

record wxInputStream =
  bytes :: "char list"
  eof_seen :: bool

definition EOF :: int where
  "EOF = - 1"

definition GetC :: "wxInputStream \<Rightarrow> int \<times> wxInputStream" where
  "GetC inp =
     (case bytes inp of
        [] \<Rightarrow> (EOF, inp\<lparr>eof_seen := True\<rparr>)
      | c # cs \<Rightarrow> (of_char c, inp\<lparr>bytes := cs\<rparr>))"

definition Ungetch :: "int \<Rightarrow> wxInputStream \<Rightarrow> wxInputStream" where
  "Ungetch c inp = inp\<lparr>bytes := char_of c # bytes inp\<rparr>"

definition Eof :: "wxInputStream \<Rightarrow> bool" where
  "Eof inp = eof_seen inp"

subsection \<open>The byte-order mark\<close>

definition eat_utf8_bom :: "wxInputStream \<Rightarrow> bool \<times> wxInputStream" where
  "eat_utf8_bom inp0 =
     (let (c, inp1) = GetC inp0 in
      if c = 0xEF then
        (let (c, inp2) = GetC inp1 in
         if c = 0xBB then
           (let (c, inp3) = GetC inp2 in
            if c = 0xBF then (True, inp3)
            else if c \<noteq> EOF then (False, Ungetch c inp3)
            else (False, inp3))
         else if c \<noteq> EOF then (False, Ungetch c inp2)
         else (False, inp2))
      else if c \<noteq> EOF then (False, Ungetch c inp1)
      else (False, inp1))"

section \<open>Strings\<close>

text \<open>
  A \<open>String\<close> is kept as the list of its UTF-8 code units. Every character the reader
  looks for (tab, space, \<open>#\<close>, \<open>:\<close>, CR, LF) is ASCII, and UTF-8 uses no ASCII byte
  inside a longer sequence, so searching, counting and cutting at these characters is the
  same on code units and on decoded characters.
\<close>

type_synonym String = "char list"

definition TAB :: char where
  "TAB = CHR 0x09"

definition LF :: char where
  "LF = CHR 0x0A"

definition CR :: char where
  "CR = CHR 0x0D"

definition QUOTE :: char where
  "QUOTE = CHR 0x27"

definition is_blank_char :: "char \<Rightarrow> bool" where
  "is_blank_char c = (c = CHR '' '' \<or> c = TAB)"

text \<open>\<open>s.find_first_not_of(" \t") == npos\<close>\<close>

definition only_blanks :: "String \<Rightarrow> bool" where
  "only_blanks s = (dropWhile is_blank_char s = [])"

text \<open>\<open>s.find_first_of(ch, pos)\<close>; \<open>None\<close> is \<open>npos\<close>.\<close>

definition find_first_of :: "char \<Rightarrow> nat \<Rightarrow> String \<Rightarrow> nat option" where
  "find_first_of ch pos s =
     (let t = drop pos s in
      if ch \<in> set t then Some (pos + length (takeWhile (\<lambda>c. c \<noteq> ch) t)) else None)"

text \<open>
  Modelled from the spec: the helpers \<open>trim\<close>, \<open>trim_left\<close>, \<open>starts_with\<close> and
  \<open>substr\<close> of the repository's string utilities, which the reader calls and whose
  source is not at hand. The spec calls the key "trimmed", the value "left-trimmed", and a
  line blank when it holds "only tabs/spaces": trimming removes spaces and tabs.
\<close>

definition trim :: "String \<Rightarrow> String" where
  "trim s = rev (dropWhile is_blank_char (rev (dropWhile is_blank_char s)))"

definition trim_left :: "String \<Rightarrow> String" where
  "trim_left s = dropWhile is_blank_char s"

definition starts_with :: "String \<Rightarrow> String \<Rightarrow> bool" where
  "starts_with s p = (take (length p) s = p)"

definition substr :: "String \<Rightarrow> nat \<Rightarrow> String" where
  "substr s pos = drop pos s"

text \<open>Decimal output of an integer, as \<open>String << int\<close> and \<open>%d\<close> print it.\<close>

fun decimal :: "nat \<Rightarrow> String" where
  "decimal n =
     (if n < 10 then [char_of (48 + n)] else decimal (n div 10) @ [char_of (48 + n mod 10)])"

declare decimal.simps [simp del]

definition format_int :: "int \<Rightarrow> String" where
  "format_int i = (if i < 0 then CHR ''-'' # decimal (nat (- i)) else decimal (nat i))"

section \<open>The reader\<close>

text \<open>
  What the reader takes from outside this file, as parameters of the model: the UTF-8
  converter of wxWidgets (only whether it accepts a byte sequence matters here), the
  repository's \<open>canonical_name_form\<close>, the default arguments of \<open>Reader::warning\<close>
  (given in the class declaration), \<open>wxString::ToLong\<close> (from the string and the old
  content of \<open>*l\<close> to the returned flag and the new content of \<open>*l\<close>), and the
  message formatter \<open>_ERROR_2_\<close>.
\<close>

record Env =
  wxConvUTF8_ok :: "char list \<Rightarrow> bool"
  canonical_name_form :: "String \<Rightarrow> String"
  default_line_number_delta :: int
  default_warn_on_previous_line :: bool
  ToLong :: "String \<Rightarrow> int \<Rightarrow> bool \<times> int"
  ERROR_2 :: "String \<Rightarrow> String \<Rightarrow> String \<Rightarrow> String"

datatype State = OUTSIDE | ENTERED | HANDLED | UNHANDLED

text \<open>
  The exceptions the code throws, and its failed checks: an \<open>assert\<close> that does not hold
  is the error \<open>AssertionFailed\<close> (the checks are compiled in), and \<open>substr\<close> from a
  position past the end of the string is \<open>OutOfRange\<close>.
\<close>

datatype error =
    ParseError String
  | InternalError String
  | AssertionFailed
  | OutOfRange

text \<open>
  The fields of \<open>Reader\<close>. \<open>value\<close> is called \<open>value_str\<close> here. The \<open>warnings\<close>
  string grows by one chunk \<open>"\nOn line " << n << ": \t" << msg\<close> per warning; it is
  kept as the list of the pairs \<open>(n, msg)\<close>.
\<close>

record Reader =
  indent :: int
  expected_indent :: int
  state :: State
  ignore_invalid :: bool
  filename :: String
  line_number :: int
  previous_line_number :: int
  input :: wxInputStream
  line :: String
  key :: String
  value_str :: String
  previous_value :: String
  warnings :: "(int \<times> String) list"
  file_app_version :: int

definition warning :: "String \<Rightarrow> int \<Rightarrow> bool \<Rightarrow> Reader \<Rightarrow> Reader" where
  "warning msg line_number_delta warn_on_previous_line r =
     r\<lparr>warnings := warnings r @
        [((if warn_on_previous_line then previous_line_number r else line_number r)
            + line_number_delta, msg)]\<rparr>"

definition warning_default :: "Env \<Rightarrow> String \<Rightarrow> Reader \<Rightarrow> Reader" where
  "warning_default E msg r =
     warning msg (default_line_number_delta E) (default_warn_on_previous_line E) r"

subsection \<open>Reading one line\<close>

function read_utf8_loop :: "bool \<Rightarrow> wxInputStream \<Rightarrow> char list \<Rightarrow> char list \<times> wxInputStream" where
  "read_utf8_loop until_eof inp buffer =
     (let (c, inp1) = GetC inp in
      if c = EOF then (buffer, inp1)
      else if \<not> until_eof \<and> c = of_char LF then (buffer, inp1)
      else if \<not> until_eof \<and> c = of_char CR then
        (let (c2, inp2) = GetC inp1 in
         if c2 \<noteq> of_char LF \<and> c2 \<noteq> EOF then (buffer, Ungetch c2 inp2)
         else (buffer, inp2))
      else read_utf8_loop until_eof inp1 (buffer @ [char_of c]))"
  by pat_completeness auto
termination
  by (relation "measure (\<lambda>(u, inp, b). length (bytes inp))")
     (auto simp: GetC_def EOF_def split: list.splits)

declare read_utf8_loop.simps [simp del]

text \<open>
  The converter is asked for the size of the decoded line: no bytes decode to size 0,
  for which the code returns the empty string, and the failure \<open>size_t(-1)\<close> is the
  parse error.
\<close>

definition read_utf8_line :: "Env \<Rightarrow> wxInputStream \<Rightarrow> bool \<Rightarrow> error + (String \<times> wxInputStream)" where
  "read_utf8_line E inp until_eof =
     (let (buffer, inp') = read_utf8_loop until_eof inp [] in
      if buffer = [] then Inr ([], inp')
      else if \<not> wxConvUTF8_ok E buffer then Inl (ParseError ''Invalid UTF-8 sequence'')
      else Inr (buffer, inp'))"

text \<open>The repair of space indentation: every 8 leading spaces of the key are one indent.\<close>

function fix_spaces :: "String \<Rightarrow> int \<Rightarrow> String \<times> int" where
  "fix_spaces k ind =
     (if starts_with k ''        '' then fix_spaces (substr k 8) (ind + 1) else (k, ind))"
  by pat_completeness auto
termination
proof (relation "measure (\<lambda>(k, ind). length k)")
  show "wf (measure (\<lambda>(k, ind). length k))"
    by simp
next
  fix k :: String and ind :: int
  assume "starts_with k ''        ''"
  then have "k \<noteq> []"
    by (auto simp: starts_with_def)
  then show "((substr k 8, ind + 1), (k, ind)) \<in> measure (\<lambda>(k, ind). length k)"
    by (simp add: substr_def)
qed

declare fix_spaces.simps [simp del]

text \<open>
  \<open>readLine\<close> in steps: the line is read from the stream, then \<open>parse_line\<close> (the
  function's body from "read indentation" on) takes it apart. \<open>read_key\<close> is the part
  that sets the key from the text before the colon, with the warning about leading spaces
  and their repair; \<open>read_value\<close> is the part that sets the value, with the warning
  about a missing colon.
\<close>

definition read_key :: "Env \<Rightarrow> bool \<Rightarrow> String \<Rightarrow> Reader \<Rightarrow> Reader" where
  "read_key E in_string k r =
     (if \<not> ignore_invalid r \<and> \<not> in_string \<and> starts_with k '' ''
      then (warning (''key: '' @ [QUOTE] @ k @ [QUOTE] @
                '' starts with a space; only use TABs for indentation!'') 0 False r)
             \<lparr>indent := snd (fix_spaces k (indent r)),
              key := canonical_name_form E (trim (fst (fix_spaces k (indent r))))\<rparr>
      else r\<lparr>key := canonical_name_form E (trim k)\<rparr>)"

definition read_value :: "bool \<Rightarrow> nat option \<Rightarrow> Reader \<Rightarrow> Reader" where
  "read_value in_string pos r =
     (case pos of
        None \<Rightarrow>
          (if \<not> ignore_invalid r \<and> \<not> in_string
           then warning (''Missing '' @ [QUOTE] @ '':'' @ [QUOTE] @ '' '') 0 False r
           else r)\<lparr>value_str := []\<rparr>
      | Some p \<Rightarrow> r\<lparr>value_str := trim_left (substr (line r) (p + 1))\<rparr>)"

definition is_comment :: "String \<Rightarrow> nat \<Rightarrow> bool" where
  "is_comment l ind = (case drop ind l of [] \<Rightarrow> False | c # _ \<Rightarrow> c = CHR ''#'')"

definition count_tabs :: "String \<Rightarrow> nat" where
  "count_tabs l = length (takeWhile (\<lambda>c. c = TAB) l)"

definition parse_line :: "Env \<Rightarrow> bool \<Rightarrow> Reader \<Rightarrow> Reader" where
  "parse_line E in_string r1 =
     (let l = line r1;
          ind = count_tabs l;
          r2 = r1\<lparr>indent := int ind\<rparr> in
      if only_blanks l \<or> is_comment l ind
      then r2\<lparr>key := []\<rparr>
      else
       (let pos = find_first_of (CHR '':'') ind l;
            k = (case pos of None \<Rightarrow> drop ind l | Some p \<Rightarrow> take (p - ind) (drop ind l));
            r5 = read_value in_string pos (read_key E in_string k r2)
        in if key r5 = [] \<and> pos \<noteq> None then r5\<lparr>key := '' ''\<rparr> else r5))"

definition readLine :: "Env \<Rightarrow> bool \<Rightarrow> Reader \<Rightarrow> error + Reader" where
  "readLine E in_string r0 =
     (let r1 = r0\<lparr>line_number := line_number r0 + 1\<rparr> in
      case read_utf8_line E (input r1) False of
        Inl (ParseError what) \<Rightarrow>
          Inl (ParseError (what @ '' on line '' @ format_int (line_number r1)))
      | Inl e \<Rightarrow> Inl e
      | Inr (l, inp) \<Rightarrow> Inr (parse_line E in_string (r1\<lparr>input := inp, line := l\<rparr>)))"

subsection \<open>Every line read shortens the stream\<close>

text \<open>
  \<open>remaining\<close> counts the unread bytes, and one more while the end of the stream has
  not been seen: reading a line makes it smaller unless the end was seen before.
\<close>

definition remaining :: "wxInputStream \<Rightarrow> nat" where
  "remaining inp = length (bytes inp) + (if eof_seen inp then 0 else 1)"

lemma of_char_int_nonneg: "0 \<le> (of_char c :: int)"
  by (metis of_nat_of_char of_nat_0_le_iff)

lemma of_char_not_EOF: "(of_char c :: int) \<noteq> EOF"
  using of_char_int_nonneg[of c] by (simp add: EOF_def)

lemma read_utf8_loop_progress:
  "read_utf8_loop u inp b = (b', inp') \<Longrightarrow>
     length (bytes inp') \<le> length (bytes inp) \<and>
     (eof_seen inp \<longrightarrow> eof_seen inp') \<and>
     (\<not> eof_seen inp' \<longrightarrow> length (bytes inp') < length (bytes inp)) \<and>
     (bytes inp \<noteq> [] \<longrightarrow> length (bytes inp') < length (bytes inp)) \<and>
     (bytes inp = [] \<longrightarrow> eof_seen inp')"
proof (induction u inp b arbitrary: b' inp' rule: read_utf8_loop.induct)
  case (1 until_eof inp buffer)
  note unf = "1.prems"[unfolded read_utf8_loop.simps[of until_eof inp buffer]]
  show ?case
  proof (cases "bytes inp")
    case Nil
    with unf show ?thesis
      by (auto simp add: GetC_def EOF_def)
  next
    case (Cons c cs)
    have g: "GetC inp = (of_char c, inp\<lparr>bytes := cs\<rparr>)"
      by (simp add: GetC_def Cons)
    have ne: "(of_char c :: int) \<noteq> EOF"
      by (rule of_char_not_EOF)
    show ?thesis
    proof (cases "\<not> until_eof \<and> (of_char c :: int) = of_char LF")
      case True
      with unf g ne Cons show ?thesis
        by (auto simp del: of_char_eq_iff)
    next
      case nlf: False
      show ?thesis
      proof (cases "\<not> until_eof \<and> (of_char c :: int) = of_char CR")
        case True
        with unf g ne Cons nlf show ?thesis
          by (auto simp add: GetC_def Ungetch_def
                split: list.splits if_splits simp del: of_char_eq_iff)
      next
        case False
        with unf g ne nlf
        have rec: "read_utf8_loop until_eof (inp\<lparr>bytes := cs\<rparr>)
                     (buffer @ [char_of (of_char c :: int)]) = (b', inp')"
          by (simp del: of_char_eq_iff)
        from "1.IH"[OF refl g[symmetric] ne nlf False rec]
        have "length (bytes inp') \<le> length cs \<and> (eof_seen inp \<longrightarrow> eof_seen inp')"
          by auto
        then show ?thesis using Cons by auto
      qed
    qed
  qed
qed

lemma warning_frame [simp]:
  "input (warning m d p r) = input r"
  "expected_indent (warning m d p r) = expected_indent r"
  "state (warning m d p r) = state r"
  "ignore_invalid (warning m d p r) = ignore_invalid r"
  "previous_value (warning m d p r) = previous_value r"
  "file_app_version (warning m d p r) = file_app_version r"
  "line_number (warning m d p r) = line_number r"
  "previous_line_number (warning m d p r) = previous_line_number r"
  "filename (warning m d p r) = filename r"
  "line (warning m d p r) = line r"
  "indent (warning m d p r) = indent r"
  "key (warning m d p r) = key r"
  "value_str (warning m d p r) = value_str r"
  by (simp_all add: warning_def)

lemma read_key_frame [simp]:
  "input (read_key E b k r) = input r"
  "expected_indent (read_key E b k r) = expected_indent r"
  "state (read_key E b k r) = state r"
  "ignore_invalid (read_key E b k r) = ignore_invalid r"
  "previous_value (read_key E b k r) = previous_value r"
  "file_app_version (read_key E b k r) = file_app_version r"
  "line_number (read_key E b k r) = line_number r"
  "previous_line_number (read_key E b k r) = previous_line_number r"
  "filename (read_key E b k r) = filename r"
  "line (read_key E b k r) = line r"
  "value_str (read_key E b k r) = value_str r"
  by (simp_all add: read_key_def)

lemma read_value_frame [simp]:
  "input (read_value b pos r) = input r"
  "expected_indent (read_value b pos r) = expected_indent r"
  "state (read_value b pos r) = state r"
  "ignore_invalid (read_value b pos r) = ignore_invalid r"
  "previous_value (read_value b pos r) = previous_value r"
  "file_app_version (read_value b pos r) = file_app_version r"
  "line_number (read_value b pos r) = line_number r"
  "previous_line_number (read_value b pos r) = previous_line_number r"
  "filename (read_value b pos r) = filename r"
  "line (read_value b pos r) = line r"
  "indent (read_value b pos r) = indent r"
  "key (read_value b pos r) = key r"
  by (simp_all add: read_value_def split: option.split)

lemma parse_line_frame [simp]:
  "input (parse_line E b r) = input r"
  "expected_indent (parse_line E b r) = expected_indent r"
  "state (parse_line E b r) = state r"
  "ignore_invalid (parse_line E b r) = ignore_invalid r"
  "previous_value (parse_line E b r) = previous_value r"
  "file_app_version (parse_line E b r) = file_app_version r"
  "line_number (parse_line E b r) = line_number r"
  "previous_line_number (parse_line E b r) = previous_line_number r"
  "filename (parse_line E b r) = filename r"
  "line (parse_line E b r) = line r"
  by (simp_all add: parse_line_def Let_def)

lemma readLine_Inr:
  assumes "readLine E b r = Inr r'"
  obtains l inp where "read_utf8_line E (input r) False = Inr (l, inp)"
    and "r' = parse_line E b (r\<lparr>line_number := line_number r + 1, input := inp, line := l\<rparr>)"
proof (cases "read_utf8_line E (input r) False")
  case (Inl e)
  with assms show ?thesis
    by (cases e) (simp_all add: readLine_def)
next
  case (Inr p)
  with assms that show ?thesis
    by (cases p) (simp add: readLine_def)
qed

lemma read_utf8_line_Inr:
  "read_utf8_line E inp u = Inr (l, inp') \<Longrightarrow> read_utf8_loop u inp [] = (l, inp')"
  by (cases "read_utf8_loop u inp []") (auto simp: read_utf8_line_def split: if_splits)

lemma readLine_input:
  "readLine E b r = Inr r' \<Longrightarrow> \<exists>l. read_utf8_loop False (input r) [] = (l, input r')"
  by (erule readLine_Inr) (auto dest: read_utf8_line_Inr)

lemma readLine_frame:
  "readLine E b r = Inr r' \<Longrightarrow>
     expected_indent r' = expected_indent r \<and> state r' = state r \<and>
     ignore_invalid r' = ignore_invalid r \<and> previous_value r' = previous_value r \<and>
     file_app_version r' = file_app_version r \<and> line_number r' = line_number r + 1 \<and>
     previous_line_number r' = previous_line_number r \<and> filename r' = filename r"
  by (erule readLine_Inr) simp

lemma readLine_remaining:
  assumes "readLine E b r = Inr r'" and "\<not> eof_seen (input r)"
  shows "remaining (input r') < remaining (input r)"
proof -
  from readLine_input[OF assms(1)] obtain l
    where "read_utf8_loop False (input r) [] = (l, input r')" ..
  from read_utf8_loop_progress[OF this] assms(2) show ?thesis
    by (cases "bytes (input r) = []") (auto simp: remaining_def)
qed

subsection \<open>The block cursor\<close>

text \<open>The loop \<open>while (key.empty() && !input.Eof()) readLine();\<close> of \<open>moveNext\<close>,
  which \<open>getValue\<close> repeats.\<close>

function moveNext_loop :: "Env \<Rightarrow> Reader \<Rightarrow> error + Reader" where
  "moveNext_loop E r =
     (if key r = [] \<and> \<not> Eof (input r)
      then (case readLine E False r of Inl e \<Rightarrow> Inl e | Inr r' \<Rightarrow> moveNext_loop E r')
      else Inr r)"
  by pat_completeness auto
termination
  by (relation "measure (\<lambda>(E, r). remaining (input r))")
     (auto simp: Eof_def dest: readLine_remaining)

declare moveNext_loop.simps [simp del]

text \<open>The end of \<open>moveNext\<close>: "did we reach the end of the file?"\<close>

definition at_end_of_file :: "Reader \<Rightarrow> Reader" where
  "at_end_of_file r =
     (if key r = [] \<and> Eof (input r)
      then r\<lparr>line_number := line_number r + 1, indent := - 1\<rparr>
      else r)"

definition moveNext :: "Env \<Rightarrow> Reader \<Rightarrow> error + Reader" where
  "moveNext E r =
     (case moveNext_loop E
             (r\<lparr>previous_line_number := line_number r, state := HANDLED,
                key := [], indent := - 1\<rparr>) of
        Inl e \<Rightarrow> Inl e
      | Inr r' \<Rightarrow> Inr (at_end_of_file r'))"

definition enterAnyBlock :: "Env \<Rightarrow> Reader \<Rightarrow> error + (bool \<times> Reader)" where
  "enterAnyBlock E r =
     (case (if state r = ENTERED then moveNext E r else Inr r) of
        Inl e \<Rightarrow> Inl e
      | Inr r1 \<Rightarrow>
          if indent r1 \<noteq> expected_indent r1 then Inr (False, r1)
          else Inr (True, r1\<lparr>state := ENTERED, expected_indent := expected_indent r1 + 1\<rparr>))"

definition enterBlock :: "Env \<Rightarrow> String \<Rightarrow> Reader \<Rightarrow> error + (bool \<times> Reader)" where
  "enterBlock E name r =
     (case (if state r = ENTERED then moveNext E r else Inr r) of
        Inl e \<Rightarrow> Inl e
      | Inr r1 \<Rightarrow>
          if indent r1 \<noteq> expected_indent r1 then Inr (False, r1)
          else if key r1 = name
          then Inr (True, r1\<lparr>state := ENTERED, expected_indent := expected_indent r1 + 1\<rparr>)
          else Inr (False, r1))"

text \<open>
  The loop \<open>while (indent > expected_indent) moveNext();\<close> of \<open>exitBlock\<close>. At the
  end of the stream \<open>moveNext\<close> leaves the indent at -1, so the loop as written never
  ends when it is started with an expected indent below -1: not returning is \<open>None\<close>.
\<close>

partial_function (option) exitBlock_loop :: "Env \<Rightarrow> Reader \<Rightarrow> (error + Reader) option" where
  "exitBlock_loop E r =
     (if indent r > expected_indent r
      then (case moveNext E r of Inl e \<Rightarrow> Some (Inl e) | Inr r' \<Rightarrow> exitBlock_loop E r')
      else Some (Inr r))"

declare exitBlock_loop.simps [code]

definition exitBlock :: "Env \<Rightarrow> Reader \<Rightarrow> (error + Reader) option" where
  "exitBlock E r =
     (if \<not> expected_indent r > 0 then Some (Inl AssertionFailed)
      else
       (let r1 = r\<lparr>expected_indent := expected_indent r - 1\<rparr> in
        if \<not> state r1 \<noteq> UNHANDLED then Some (Inl AssertionFailed)
        else
         (let r2 = r1\<lparr>previous_value := []\<rparr> in
          case (if state r2 = ENTERED then moveNext E r2 else Inr r2) of
            Inl e \<Rightarrow> Some (Inl e)
          | Inr r3 \<Rightarrow>
             (case exitBlock_loop E r3 of
                None \<Rightarrow> None
              | Some (Inl e) \<Rightarrow> Some (Inl e)
              | Some (Inr r4) \<Rightarrow> Some (Inr (r4\<lparr>state := HANDLED\<rparr>))))))"

definition handleIgnore :: "Env \<Rightarrow> int \<Rightarrow> String \<Rightarrow> Reader \<Rightarrow> (error + Reader) option" where
  "handleIgnore E end_version a r =
     (if file_app_version r < end_version
      then (case enterBlock E a r of
              Inl e \<Rightarrow> Some (Inl e)
            | Inr (True, r1) \<Rightarrow> exitBlock E r1
            | Inr (False, r1) \<Rightarrow> Some (Inr r1))
      else Some (Inr r))"

text \<open>The loop \<open>do { moveNext(); } while (indent > expected_indent);\<close> of
  \<open>unknownKey\<close>; like the loop of \<open>exitBlock\<close> it need not end.\<close>

partial_function (option) unknownKey_loop :: "Env \<Rightarrow> Reader \<Rightarrow> (error + Reader) option" where
  "unknownKey_loop E r =
     (case moveNext E r of
        Inl e \<Rightarrow> Some (Inl e)
      | Inr r' \<Rightarrow> if indent r' > expected_indent r' then unknownKey_loop E r' else Some (Inr r'))"

declare unknownKey_loop.simps [code]

definition unknownKey :: "Env \<Rightarrow> Reader \<Rightarrow> (error + Reader) option" where
  "unknownKey E r =
     (if ignore_invalid r then unknownKey_loop E r
      else if indent r \<ge> expected_indent r
      then unknownKey_loop E
             (warning (''Unexpected key: '' @ [QUOTE] @ key r @ [QUOTE]) 0 False r)
      else Some (Inr r))"

subsection \<open>Values\<close>

definition unhandle :: "Reader \<Rightarrow> error + Reader" where
  "unhandle r = (if state r = HANDLED then Inr (r\<lparr>state := UNHANDLED\<rparr>) else Inl AssertionFailed)"

text \<open>
  The two loops of \<open>getValue\<close> for a multi-line string. \<open>getValue_skip\<close> is the inner
  \<open>do { readLine(true); pending_newlines++; } while (...)\<close>, \<open>getValue_loop\<close> the
  outer \<open>while\<close>; \<open>line.substr(expected_indent)\<close> throws when the position is past
  the end of the line (a negative \<open>int\<close> is a huge position).
\<close>

lemma readLine_not_eof:
  assumes "readLine E b r = Inr r'" and "\<not> eof_seen (input r')"
  shows "length (bytes (input r')) < length (bytes (input r))"
proof -
  from readLine_input[OF assms(1)] obtain l
    where "read_utf8_loop False (input r) [] = (l, input r')" ..
  from read_utf8_loop_progress[OF this] assms(2) show ?thesis
    by simp
qed

function getValue_skip :: "Env \<Rightarrow> Reader \<Rightarrow> int \<Rightarrow> error + (Reader \<times> int)" where
  "getValue_skip E r pending_newlines =
     (case readLine E True r of
        Inl e \<Rightarrow> Inl e
      | Inr r' \<Rightarrow>
          if trim (line r') = [] \<and> indent r' < expected_indent r' \<and> \<not> Eof (input r')
          then getValue_skip E r' (pending_newlines + 1)
          else Inr (r', pending_newlines + 1))"
  by pat_completeness auto
termination
  by (relation "measure (\<lambda>(E, r, p). length (bytes (input r)))")
     (auto simp: Eof_def dest: readLine_not_eof)

declare getValue_skip.simps [simp del]

lemma readLine_remaining_le:
  assumes "readLine E b r = Inr r'"
  shows "remaining (input r') \<le> remaining (input r)"
proof -
  from readLine_input[OF assms(1)] obtain l
    where "read_utf8_loop False (input r) [] = (l, input r')" ..
  from read_utf8_loop_progress[OF this] show ?thesis
    by (auto simp: remaining_def)
qed

lemma getValue_skip_remaining:
  "getValue_skip E r p = Inr (r', p') \<Longrightarrow> \<not> eof_seen (input r) \<Longrightarrow>
     remaining (input r') < remaining (input r)"
proof (induction E r p rule: getValue_skip.induct)
  case (1 E r p)
  from "1.prems"(1) obtain r1 where r1: "readLine E True r = Inr r1"
    by (auto simp: getValue_skip.simps[of E r] split: sum.splits)
  have lt: "remaining (input r1) < remaining (input r)"
    using readLine_remaining[OF r1 "1.prems"(2)] .
  show ?case
  proof (cases "trim (line r1) = [] \<and> indent r1 < expected_indent r1 \<and> \<not> Eof (input r1)")
    case True
    with "1.prems"(1) r1 have "getValue_skip E r1 (p + 1) = Inr (r', p')"
      by (simp add: getValue_skip.simps[of E r])
    from "1.IH"[OF r1 True this] True lt show ?thesis
      by (simp add: Eof_def)
  next
    case False
    with "1.prems"(1) r1 have "r' = r1"
      by (auto simp add: getValue_skip.simps[of E r])
    with lt show ?thesis by simp
  qed
qed

function getValue_loop :: "Env \<Rightarrow> Reader \<Rightarrow> int \<Rightarrow> error + Reader" where
  "getValue_loop E r pending_newlines =
     (if indent r \<ge> expected_indent r \<and> \<not> Eof (input r)
      then
        if expected_indent r < 0 \<or> nat (expected_indent r) > length (line r) then Inl OutOfRange
        else
         (case getValue_skip E
                 (r\<lparr>previous_value := previous_value r @ replicate (nat pending_newlines) LF @
                      drop (nat (expected_indent r)) (line r)\<rparr>) 0 of
            Inl e \<Rightarrow> Inl e
          | Inr (r', pending') \<Rightarrow> getValue_loop E r' pending')
      else Inr r)"
  by pat_completeness auto
termination
  apply (relation "measure (\<lambda>(E, r, p). remaining (input r))")
   apply simp
  apply (clarsimp simp: Eof_def)
  apply (drule getValue_skip_remaining)
   apply simp_all
  done

declare getValue_loop.simps [simp del]

definition insufficient_indent_msg :: String where
  "insufficient_indent_msg =
     ''Blank line or comment in text block, that is insufficiently indented.'' @ [LF] @
     [TAB, TAB] @ ''Either indent the comment/blank line, or add a '' @ [QUOTE] @ ''key:'' @
     [QUOTE] @ '' after it.'' @ [LF] @
     [TAB, TAB] @ ''This could cause more more error messages.'' @ [LF]"

definition getValue :: "Env \<Rightarrow> Reader \<Rightarrow> error + (String \<times> Reader)" where
  "getValue E r =
     (if \<not> state r \<noteq> HANDLED then Inl AssertionFailed
      else if state r = UNHANDLED then Inr (previous_value r, r\<lparr>state := HANDLED\<rparr>)
      else if value_str r = [] then
        (case readLine E True (r\<lparr>previous_value := []\<rparr>) of
           Inl e \<Rightarrow> Inl e
         | Inr r1 \<Rightarrow>
            (case getValue_loop E (r1\<lparr>previous_line_number := line_number r1\<rparr>) 0 of
               Inl e \<Rightarrow> Inl e
             | Inr r2 \<Rightarrow>
                (case moveNext_loop E (r2\<lparr>state := HANDLED\<rparr>) of
                   Inl e \<Rightarrow> Inl e
                 | Inr r3 \<Rightarrow>
                    (let r4 = at_end_of_file r3;
                         r5 = (if indent r4 \<ge> expected_indent r4
                               then warning insufficient_indent_msg (- 1) False r4 else r4)
                     in Inr (previous_value r5, r5)))))
      else
        (case moveNext E (r\<lparr>previous_value := value_str r\<rparr>) of
           Inl e \<Rightarrow> Inl e
         | Inr r1 \<Rightarrow> Inr (previous_value r1, r1)))"

subsection \<open>Typed values\<close>

text \<open>
  A \<open>handle\<close> overload writes through a reference: the model takes the old content of
  the destination where the code can leave it as it was, and returns the new content with
  the reader. \<open>unsigned int\<close> and \<open>int\<close> are 32 bits wide; \<open>abs\<close> is applied to the
  \<open>long\<close>, and the result is converted to \<open>unsigned int\<close>, which keeps it modulo
  \<open>2^32\<close>.
\<close>

definition handle_String :: "Env \<Rightarrow> Reader \<Rightarrow> error + (String \<times> Reader)" where
  "handle_String E r = getValue E r"

definition handle_int :: "Env \<Rightarrow> Reader \<Rightarrow> error + (32 word \<times> Reader)" where
  "handle_int E r =
     (case getValue E r of
        Inl e \<Rightarrow> Inl e
      | Inr (v, r1) \<Rightarrow>
         (let (ok, l) = ToLong E v 0;
              r2 = (if \<not> ok
                    then warning_default E
                           (''Expected integer instead of '' @ [QUOTE] @ previous_value r1 @ [QUOTE]) r1
                    else r1)
          in Inr (word_of_int l, r2)))"

definition handle_unsigned_int :: "Env \<Rightarrow> Reader \<Rightarrow> error + (32 word \<times> Reader)" where
  "handle_unsigned_int E r =
     (case getValue E r of
        Inl e \<Rightarrow> Inl e
      | Inr (v, r1) \<Rightarrow>
         (let (ok, l) = ToLong E v 0;
              r2 = (if \<not> ok
                    then warning_default E
                           (''Expected non-negative integer instead of '' @ [QUOTE] @
                              previous_value r1 @ [QUOTE]) r1
                    else if l < 0
                    then warning_default E
                           (''Expected non-negative integer instead of '' @
                              format_int (sint (word_of_int l :: 32 word))) r1
                    else r1)
          in Inr (word_of_int \<bar>l\<bar>, r2)))"

definition expected_boolean_msg :: "String \<Rightarrow> String" where
  "expected_boolean_msg v =
     ''Expected boolean ('' @ [QUOTE] @ ''true'' @ [QUOTE] @ '' or '' @
       [QUOTE] @ ''false'' @ [QUOTE] @ '') instead of '' @ [QUOTE] @ v @ [QUOTE]"

definition handle_bool :: "Env \<Rightarrow> bool \<Rightarrow> Reader \<Rightarrow> error + (bool \<times> Reader)" where
  "handle_bool E b r =
     (case getValue E r of
        Inl e \<Rightarrow> Inl e
      | Inr (v, r1) \<Rightarrow>
          if v = ''true'' \<or> v = ''1'' \<or> v = ''yes'' then Inr (True, r1)
          else if v = ''false'' \<or> v = ''0'' \<or> v = ''no'' then Inr (False, r1)
          else Inr (b, warning_default E (expected_boolean_msg v) r1))"

text \<open>
  \<open>wxDateTime::ParseDateTime(str, &end)\<close> is a parameter: \<open>None\<close> when it returns
  false, otherwise the date it parsed and the position \<open>end\<close> in \<open>str\<close>.
\<close>

definition handle_DateTime ::
    "Env \<Rightarrow> (String \<Rightarrow> ('d \<times> nat) option) \<Rightarrow> Reader \<Rightarrow> error + ('d \<times> Reader)" where
  "handle_DateTime E ParseDateTime r =
     (case getValue E r of
        Inl e \<Rightarrow> Inl e
      | Inr (str, r1) \<Rightarrow>
         (case ParseDateTime str of
            None \<Rightarrow> Inl (ParseError ''Expected a date and time'')
          | Some (date, end_pos) \<Rightarrow>
              if end_pos \<noteq> length str then Inl (ParseError ''Expected a date and time'')
              else Inr (date, r1)))"

text \<open>
  \<open>wxSscanf(str, "(%lf,%lf)", &vec.x, &vec.y)\<close> is a parameter: from the string and
  the old \<open>(x, y)\<close> to the returned count and the new \<open>(x, y)\<close>. The count is
  negated as a truth value: only the count 0 throws.
\<close>

definition handle_Vector2D ::
    "Env \<Rightarrow> (String \<Rightarrow> 'v \<times> 'v \<Rightarrow> int \<times> ('v \<times> 'v)) \<Rightarrow> 'v \<times> 'v \<Rightarrow> Reader
       \<Rightarrow> error + (('v \<times> 'v) \<times> Reader)" where
  "handle_Vector2D E wxSscanf vec r =
     (case getValue E r of
        Inl e \<Rightarrow> Inl e
      | Inr (str, r1) \<Rightarrow>
         (let (n, vec') = wxSscanf str vec in
          if n = 0 then Inl (ParseError ''Expected (x,y)'') else Inr (vec', r1)))"

subsection \<open>EnumReader\<close>

text \<open>
  The fields \<open>read\<close>, \<open>first\<close> and \<open>done\<close> of \<open>EnumReader\<close>. \<open>!first\<close> holds when
  no first name is remembered: the empty name.
\<close>

record EnumReader =
  er_read :: String
  er_first :: String
  er_done :: bool

definition notDoneErrorMessage :: "Env \<Rightarrow> EnumReader \<Rightarrow> error + String" where
  "notDoneErrorMessage E er =
     (if er_first er = [] then Inl (InternalError ''No first value in EnumReader'')
      else Inr (ERROR_2 E ''unrecognized value'' (er_read er) (er_first er)))"

definition warnIfNotDone :: "Env \<Rightarrow> EnumReader \<Rightarrow> Reader \<Rightarrow> error + Reader" where
  "warnIfNotDone E er errors_to =
     (if \<not> er_done er
      then (case notDoneErrorMessage E er of
              Inl e \<Rightarrow> Inl e
            | Inr msg \<Rightarrow> Inr (warning_default E msg errors_to))
      else Inr errors_to)"

definition errorIfNotDone :: "Env \<Rightarrow> EnumReader \<Rightarrow> error + unit" where
  "errorIfNotDone E er =
     (if \<not> er_done er
      then (case notDoneErrorMessage E er of
              Inl e \<Rightarrow> Inl e
            | Inr msg \<Rightarrow> Inl (ParseError msg))
      else Inr ())"

section \<open>An instance of the parameters\<close>

text \<open>
  The examples below run the model on concrete documents, with this instance of \<open>Env\<close>:
  a structural check of UTF-8, a canonical form that writes every space or underscore
  after the first other character as an underscore, \<open>ToLong\<close> as \<open>strtol\<close> in base 10
  on a 64-bit \<open>long\<close> (the flag is false when nothing was parsed or the number is out
  of range, both leaving \<open>*l\<close> alone, and when characters are left over), warnings
  attributed to the previous line, and a plain message format.
\<close>

fun utf8_cont :: "char \<Rightarrow> bool" where
  "utf8_cont c = (128 \<le> (of_char c :: nat) \<and> (of_char c :: nat) < 192)"

fun utf8_valid :: "char list \<Rightarrow> bool" where
  "utf8_valid [] = True"
| "utf8_valid (c # cs) =
     (let n = (of_char c :: nat) in
      if n < 128 then utf8_valid cs
      else if 194 \<le> n \<and> n < 224 then
        (case cs of c1 # r \<Rightarrow> utf8_cont c1 \<and> utf8_valid r | _ \<Rightarrow> False)
      else if 224 \<le> n \<and> n < 240 then
        (case cs of c1 # c2 # r \<Rightarrow> utf8_cont c1 \<and> utf8_cont c2 \<and> utf8_valid r | _ \<Rightarrow> False)
      else if 240 \<le> n \<and> n < 245 then
        (case cs of c1 # c2 # c3 # r \<Rightarrow>
            utf8_cont c1 \<and> utf8_cont c2 \<and> utf8_cont c3 \<and> utf8_valid r | _ \<Rightarrow> False)
      else False)"

fun underscores :: "bool \<Rightarrow> String \<Rightarrow> String" where
  "underscores leading [] = []"
| "underscores leading (c # cs) =
     (if c = CHR ''_'' \<or> c = CHR '' ''
      then (if leading then c else CHR ''_'') # underscores leading cs
      else c # underscores False cs)"

definition c_isspace :: "char \<Rightarrow> bool" where
  "c_isspace c = (c = CHR '' '' \<or> (9 \<le> (of_char c :: nat) \<and> (of_char c :: nat) \<le> 13))"

definition is_digit :: "char \<Rightarrow> bool" where
  "is_digit c = (48 \<le> (of_char c :: nat) \<and> (of_char c :: nat) \<le> 57)"

definition digits_value :: "String \<Rightarrow> int" where
  "digits_value ds = foldl (\<lambda>n c. 10 * n + (of_char c - 48)) 0 ds"

definition strtol10 :: "String \<Rightarrow> (int \<times> String) option" where
  "strtol10 s =
     (let t = dropWhile c_isspace s;
          neg = (case t of c # _ \<Rightarrow> c = CHR ''-'' | [] \<Rightarrow> False);
          t1 = (case t of c # u \<Rightarrow> if c = CHR ''-'' \<or> c = CHR ''+'' then u else t | [] \<Rightarrow> t);
          ds = takeWhile is_digit t1
      in if ds = [] then None
         else Some (if neg then - digits_value ds else digits_value ds,
                    dropWhile is_digit t1))"

definition wx_ToLong :: "String \<Rightarrow> int \<Rightarrow> bool \<times> int" where
  "wx_ToLong s l =
     (case strtol10 s of
        None \<Rightarrow> (False, l)
      | Some (v, rest) \<Rightarrow>
          if v < - 9223372036854775808 \<or> 9223372036854775807 < v then (False, l)
          else (rest = [], v))"

definition example_env :: Env where
  "example_env =
     \<lparr>wxConvUTF8_ok = utf8_valid,
      canonical_name_form = underscores True,
      default_line_number_delta = 0,
      default_warn_on_previous_line = True,
      ToLong = wx_ToLong,
      ERROR_2 = (\<lambda>what a b. what @ '': '' @ a @ '', '' @ b)\<rparr>"


text \<open>
  The reader on a line \<open>k: v\<close> at the top level whose block has just been entered (as
  \<open>enterBlock\<close> leaves it), with \<open>bs\<close> still to be read.
\<close>

definition reader_on :: "bool \<Rightarrow> String \<Rightarrow> String \<Rightarrow> char list \<Rightarrow> Reader" where
  "reader_on ignore k v bs =
     \<lparr>indent = 0, expected_indent = 1, state = ENTERED, ignore_invalid = ignore,
      filename = [], line_number = 1, previous_line_number = 0,
      input = \<lparr>bytes = bs, eof_seen = False\<rparr>, line = k @ '': '' @ v, key = k,
      value_str = v, previous_value = [], warnings = [], file_app_version = 0\<rparr>"

text \<open>
  The same for \<open>wxSscanf\<close> with the format \<open>(%lf,%lf)\<close>: the literal \<open>(\<close>, a
  number, the literal \<open>,\<close>, a number; the count of numbers converted, or \<open>EOF\<close> when
  the input ends before the first. A number is written \<open>Decimal m k\<close> for
  \<open>m / 10^k\<close>; only the plain decimal notation is scanned.
\<close>

datatype decimal_number = Decimal int nat

definition scan_double :: "String \<Rightarrow> (decimal_number \<times> String) option" where
  "scan_double s =
     (let t = dropWhile c_isspace s;
          neg = (case t of c # _ \<Rightarrow> c = CHR ''-'' | [] \<Rightarrow> False);
          t1 = (case t of c # u \<Rightarrow> if c = CHR ''-'' \<or> c = CHR ''+'' then u else t | [] \<Rightarrow> t);
          ip = takeWhile is_digit t1;
          t2 = dropWhile is_digit t1;
          fp = (case t2 of c # u \<Rightarrow> if c = CHR ''.'' then takeWhile is_digit u else [] | [] \<Rightarrow> []);
          t3 = (case t2 of c # u \<Rightarrow> if c = CHR ''.'' then dropWhile is_digit u else t2 | [] \<Rightarrow> t2);
          m = digits_value (ip @ fp)
      in if ip @ fp = [] then None
         else Some (Decimal (if neg then - m else m) (length fp), t3))"

definition sscanf_point ::
    "String \<Rightarrow> decimal_number \<times> decimal_number \<Rightarrow> int \<times> (decimal_number \<times> decimal_number)" where
  "sscanf_point s vec =
     (case s of
        [] \<Rightarrow> (EOF, vec)
      | c # s1 \<Rightarrow>
          if c \<noteq> CHR ''('' then (0, vec)
          else
           (case scan_double s1 of
              None \<Rightarrow> (if dropWhile c_isspace s1 = [] then EOF else 0, vec)
            | Some (x, s2) \<Rightarrow>
               (case s2 of
                  [] \<Rightarrow> (1, (x, snd vec))
                | c2 # s3 \<Rightarrow>
                    if c2 \<noteq> CHR '','' then (1, (x, snd vec))
                    else
                     (case scan_double s3 of
                        None \<Rightarrow> (1, (x, snd vec))
                      | Some (y, s4) \<Rightarrow> (2, (x, y))))))"

text \<open>
  The reader as the constructor leaves it before it looks for the version block: the
  fields initialised, the byte-order mark eaten, the first line read.
\<close>

definition Reader_init :: "bool \<Rightarrow> char list \<Rightarrow> Reader" where
  "Reader_init ignore bs =
     \<lparr>indent = 0, expected_indent = 0, state = OUTSIDE, ignore_invalid = ignore,
      filename = [], line_number = 0, previous_line_number = 0,
      input = snd (eat_utf8_bom \<lparr>bytes = bs, eof_seen = False\<rparr>), line = [], key = [],
      value_str = [], previous_value = [], warnings = [], file_app_version = 0\<rparr>"

definition first_line :: "bool \<Rightarrow> char list \<Rightarrow> Reader" where
  "first_line ignore bs =
     (case moveNext example_env (Reader_init ignore bs) of
        Inl e \<Rightarrow> Reader_init ignore bs
      | Inr r \<Rightarrow> r)"

definition extra_block_doc :: "char list" where
  "extra_block_doc =
     ''extra:'' @ [LF, TAB] @ ''x: 1'' @ [LF, TAB] @ ''y: 2'' @ [LF] @ ''name: Example'' @ [LF]"

section \<open>What the cursor operations leave alone\<close>

text \<open>The line a warning with the default arguments is attributed to.\<close>

definition default_line :: "Env \<Rightarrow> Reader \<Rightarrow> int" where
  "default_line E r =
     (if default_warn_on_previous_line E then previous_line_number r else line_number r)
       + default_line_number_delta E"

lemma warning_default_eq:
  "warning_default E msg r = r\<lparr>warnings := warnings r @ [(default_line E r, msg)]\<rparr>"
  by (simp add: warning_default_def warning_def default_line_def)

lemma at_end_of_file_frame [simp]:
  "input (at_end_of_file r) = input r"
  "expected_indent (at_end_of_file r) = expected_indent r"
  "state (at_end_of_file r) = state r"
  "ignore_invalid (at_end_of_file r) = ignore_invalid r"
  "previous_value (at_end_of_file r) = previous_value r"
  "file_app_version (at_end_of_file r) = file_app_version r"
  "previous_line_number (at_end_of_file r) = previous_line_number r"
  "filename (at_end_of_file r) = filename r"
  "line (at_end_of_file r) = line r"
  "key (at_end_of_file r) = key r"
  "value_str (at_end_of_file r) = value_str r"
  "warnings (at_end_of_file r) = warnings r"
  by (simp_all add: at_end_of_file_def)

lemma moveNext_loop_frame:
  "moveNext_loop E r = Inr r' \<Longrightarrow>
     expected_indent r' = expected_indent r \<and> state r' = state r \<and>
     ignore_invalid r' = ignore_invalid r \<and> previous_value r' = previous_value r \<and>
     file_app_version r' = file_app_version r \<and>
     previous_line_number r' = previous_line_number r \<and> filename r' = filename r"
proof (induction E r rule: moveNext_loop.induct)
  case (1 E r)
  note unf = "1.prems"[unfolded moveNext_loop.simps[of E r]]
  show ?case
  proof (cases "key r = [] \<and> \<not> Eof (input r)")
    case True
    with unf obtain r1 where r1: "readLine E False r = Inr r1" and rest: "moveNext_loop E r1 = Inr r'"
      by (auto split: sum.splits)
    from "1.IH"[OF True r1 rest] readLine_frame[OF r1] show ?thesis
      by simp
  next
    case False
    with unf show ?thesis by auto
  qed
qed

lemma moveNext_frame:
  assumes "moveNext E r = Inr r'"
  shows "expected_indent r' = expected_indent r \<and> state r' = HANDLED \<and>
     ignore_invalid r' = ignore_invalid r \<and> previous_value r' = previous_value r \<and>
     file_app_version r' = file_app_version r \<and>
     previous_line_number r' = line_number r \<and> filename r' = filename r"
proof -
  from assms obtain r1 where
    l: "moveNext_loop E (r\<lparr>previous_line_number := line_number r, state := HANDLED,
                key := [], indent := - 1\<rparr>) = Inr r1" and r': "r' = at_end_of_file r1"
    by (auto simp: moveNext_def split: sum.splits)
  from moveNext_loop_frame[OF l] r' show ?thesis by simp
qed

lemma getValue_previous_value:
  assumes "getValue E r = Inr (v, r1)"
  shows "previous_value r1 = v"
  using assms
  by (auto simp: getValue_def Let_def split: if_splits sum.splits)


lemma moveNext_loop_remaining_le:
  "moveNext_loop E r = Inr r' \<Longrightarrow> remaining (input r') \<le> remaining (input r)"
proof (induction E r rule: moveNext_loop.induct)
  case (1 E r)
  note unf = "1.prems"[unfolded moveNext_loop.simps[of E r]]
  show ?case
  proof (cases "key r = [] \<and> \<not> Eof (input r)")
    case True
    with unf obtain r1 where r1: "readLine E False r = Inr r1" and rest: "moveNext_loop E r1 = Inr r'"
      by (auto split: sum.splits)
    from "1.IH"[OF True r1 rest] readLine_remaining_le[OF r1] show ?thesis
      by simp
  next
    case False
    with unf show ?thesis by auto
  qed
qed

lemma moveNext_loop_stops:
  "moveNext_loop E r = Inr r' \<Longrightarrow> key r' \<noteq> [] \<or> Eof (input r')"
proof (induction E r rule: moveNext_loop.induct)
  case (1 E r)
  note unf = "1.prems"[unfolded moveNext_loop.simps[of E r]]
  show ?case
  proof (cases "key r = [] \<and> \<not> Eof (input r)")
    case True
    with unf obtain r1 where r1: "readLine E False r = Inr r1" and rest: "moveNext_loop E r1 = Inr r'"
      by (auto split: sum.splits)
    from "1.IH"[OF True r1 rest] show ?thesis .
  next
    case False
    with unf show ?thesis by auto
  qed
qed

lemma moveNext_remaining:
  assumes "moveNext E r = Inr r'" and "\<not> eof_seen (input r)"
  shows "remaining (input r') < remaining (input r)"
proof -
  let ?r0 = "r\<lparr>previous_line_number := line_number r, state := HANDLED, key := [], indent := - 1\<rparr>"
  from assms(1) obtain r2 where l: "moveNext_loop E ?r0 = Inr r2" and r': "r' = at_end_of_file r2"
    by (auto simp: moveNext_def split: sum.splits)
  from l assms(2) obtain r1 where r1: "readLine E False ?r0 = Inr r1"
    and rest: "moveNext_loop E r1 = Inr r2"
    by (auto simp: moveNext_loop.simps[of E ?r0] Eof_def split: sum.splits)
  from readLine_remaining[OF r1] assms(2) moveNext_loop_remaining_le[OF rest] r'
  show ?thesis by simp
qed

lemma moveNext_remaining_le:
  assumes "moveNext E r = Inr r'"
  shows "remaining (input r') \<le> remaining (input r)"
proof -
  let ?r0 = "r\<lparr>previous_line_number := line_number r, state := HANDLED, key := [], indent := - 1\<rparr>"
  from assms(1) obtain r2 where l: "moveNext_loop E ?r0 = Inr r2" and r': "r' = at_end_of_file r2"
    by (auto simp: moveNext_def split: sum.splits)
  from moveNext_loop_remaining_le[OF l] r' show ?thesis by simp
qed

lemma moveNext_at_eof:
  assumes "moveNext E r = Inr r'" and "eof_seen (input r)"
  shows "indent r' = - 1 \<and> key r' = [] \<and> input r' = input r"
  using assms
  by (auto simp: moveNext_def moveNext_loop.simps[of E "r\<lparr>previous_line_number := line_number r, state := HANDLED, key := [], indent := - 1\<rparr>"] Eof_def at_end_of_file_def)

lemma exitBlock_loop_returns:
  "- 1 \<le> expected_indent r \<Longrightarrow> \<exists>res. exitBlock_loop E r = Some res"
proof (induction "remaining (input r)" arbitrary: r rule: less_induct)
  case less
  show ?case
  proof (cases "indent r > expected_indent r")
    case False
    then show ?thesis by (simp add: exitBlock_loop.simps[of E r])
  next
    case True
    show ?thesis
    proof (cases "moveNext E r")
      case (Inl e)
      with True show ?thesis by (simp add: exitBlock_loop.simps[of E r])
    next
      case (Inr r1)
      have e1: "expected_indent r1 = expected_indent r"
        using moveNext_frame[OF Inr] by simp
      show ?thesis
      proof (cases "eof_seen (input r)")
        case True
        from moveNext_at_eof[OF Inr True] e1 less.prems
        have "\<not> indent r1 > expected_indent r1" by simp
        then have "exitBlock_loop E r1 = Some (Inr r1)"
          by (simp add: exitBlock_loop.simps[of E r1])
        with Inr \<open>indent r > expected_indent r\<close> show ?thesis
          by (simp add: exitBlock_loop.simps[of E r])
      next
        case False
        from moveNext_remaining[OF Inr False] less.hyps[of r1] e1 less.prems
        obtain res where "exitBlock_loop E r1 = Some res" by auto
        with Inr \<open>indent r > expected_indent r\<close> show ?thesis
          by (simp add: exitBlock_loop.simps[of E r])
      qed
    qed
  qed
qed

lemma exitBlock_loop_frame_aux:
  assumes "exitBlock_loop E r = Some y"
  shows "\<forall>r'. y = Inr r' \<longrightarrow>
     expected_indent r' = expected_indent r \<and> indent r' \<le> expected_indent r \<and>
     ignore_invalid r' = ignore_invalid r \<and> file_app_version r' = file_app_version r \<and>
     previous_value r' = previous_value r \<and> filename r' = filename r \<and>
     remaining (input r') \<le> remaining (input r)"
proof (rule exitBlock_loop.raw_induct[where P = "\<lambda>E r y. \<forall>r'. y = Inr r' \<longrightarrow>
     expected_indent r' = expected_indent r \<and> indent r' \<le> expected_indent r \<and>
     ignore_invalid r' = ignore_invalid r \<and> file_app_version r' = file_app_version r \<and>
     previous_value r' = previous_value r \<and> filename r' = filename r \<and>
     remaining (input r') \<le> remaining (input r)", OF _ assms])
  fix f :: "Env \<Rightarrow> Reader \<Rightarrow> (error + Reader) option" and E r y
  assume IH: "\<And>E r y. f E r = Some y \<Longrightarrow> \<forall>r'. y = Inr r' \<longrightarrow>
     expected_indent r' = expected_indent r \<and> indent r' \<le> expected_indent r \<and>
     ignore_invalid r' = ignore_invalid r \<and> file_app_version r' = file_app_version r \<and>
     previous_value r' = previous_value r \<and> filename r' = filename r \<and>
     remaining (input r') \<le> remaining (input r)"
    and eq: "(if expected_indent r < indent r
      then case moveNext E r of Inl e \<Rightarrow> Some (Inl e) | Inr r' \<Rightarrow> f E r'
      else Some (Inr r)) = Some y"
  show "\<forall>r'. y = Inr r' \<longrightarrow>
     expected_indent r' = expected_indent r \<and> indent r' \<le> expected_indent r \<and>
     ignore_invalid r' = ignore_invalid r \<and> file_app_version r' = file_app_version r \<and>
     previous_value r' = previous_value r \<and> filename r' = filename r \<and>
     remaining (input r') \<le> remaining (input r)"
  proof (cases "indent r > expected_indent r")
    case False
    with eq show ?thesis by auto
  next
    case True
    show ?thesis
    proof (intro allI impI)
      fix r' assume y: "y = Inr r'"
      with True eq obtain r1 where m: "moveNext E r = Inr r1" and f: "f E r1 = Some (Inr r')"
        by (auto split: sum.splits)
      from IH[OF f] moveNext_frame[OF m] moveNext_remaining_le[OF m]
      show "expected_indent r' = expected_indent r \<and> indent r' \<le> expected_indent r \<and>
        ignore_invalid r' = ignore_invalid r \<and> file_app_version r' = file_app_version r \<and>
        previous_value r' = previous_value r \<and> filename r' = filename r \<and>
        remaining (input r') \<le> remaining (input r)"
        by simp
    qed
  qed
qed

lemma exitBlock_loop_frame:
  "exitBlock_loop E r = Some (Inr r') \<Longrightarrow>
     expected_indent r' = expected_indent r \<and> indent r' \<le> expected_indent r \<and>
     ignore_invalid r' = ignore_invalid r \<and> file_app_version r' = file_app_version r \<and>
     previous_value r' = previous_value r \<and> filename r' = filename r \<and>
     remaining (input r') \<le> remaining (input r)"
  by (drule exitBlock_loop_frame_aux) simp

lemma read_key_warnings:
  "\<exists>ws. warnings (read_key E b k r) = warnings r @ ws"
  "ignore_invalid r \<Longrightarrow> warnings (read_key E b k r) = warnings r"
  by (simp_all add: read_key_def warning_def)

lemma read_value_warnings:
  "\<exists>ws. warnings (read_value b pos r) = warnings r @ ws"
  "ignore_invalid r \<Longrightarrow> warnings (read_value b pos r) = warnings r"
  by (simp_all add: read_value_def warning_def split: option.split)

lemma parse_line_warnings:
  "\<exists>ws. warnings (parse_line E b r) = warnings r @ ws"
  "ignore_invalid r \<Longrightarrow> warnings (parse_line E b r) = warnings r"
proof -
  have "\<exists>ws. warnings (read_value b pos (read_key E b k (r\<lparr>indent := i\<rparr>))) = warnings r @ ws"
    for pos k i
    using read_value_warnings(1)[of b pos "read_key E b k (r\<lparr>indent := i\<rparr>)"]
      read_key_warnings(1)[of E b k "r\<lparr>indent := i\<rparr>"]
    by auto
  then show "\<exists>ws. warnings (parse_line E b r) = warnings r @ ws"
    by (auto simp add: parse_line_def Let_def)
  show "ignore_invalid r \<Longrightarrow> warnings (parse_line E b r) = warnings r"
    by (simp add: parse_line_def Let_def read_value_warnings(2) read_key_warnings(2))
qed

lemma readLine_warnings:
  assumes "readLine E b r = Inr r'"
  shows "\<exists>ws. warnings r' = warnings r @ ws"
    and "ignore_invalid r \<Longrightarrow> warnings r' = warnings r"
proof -
  from assms obtain l inp where
    r': "r' = parse_line E b (r\<lparr>line_number := line_number r + 1, input := inp, line := l\<rparr>)"
    by (rule readLine_Inr)
  show "\<exists>ws. warnings r' = warnings r @ ws"
    using parse_line_warnings(1)[of E b "r\<lparr>line_number := line_number r + 1, input := inp, line := l\<rparr>"]
    by (simp add: r')
  show "ignore_invalid r \<Longrightarrow> warnings r' = warnings r"
    by (simp add: r' parse_line_warnings(2))
qed

lemma moveNext_loop_warnings:
  "moveNext_loop E r = Inr r' \<Longrightarrow>
     (\<exists>ws. warnings r' = warnings r @ ws) \<and> (ignore_invalid r \<longrightarrow> warnings r' = warnings r) \<and>
     line_number r \<le> line_number r'"
proof (induction E r rule: moveNext_loop.induct)
  case (1 E r)
  note unf = "1.prems"[unfolded moveNext_loop.simps[of E r]]
  show ?case
  proof (cases "key r = [] \<and> \<not> Eof (input r)")
    case True
    with unf obtain r1 where r1: "readLine E False r = Inr r1" and rest: "moveNext_loop E r1 = Inr r'"
      by (auto split: sum.splits)
    from "1.IH"[OF True r1 rest] readLine_warnings[OF r1] readLine_frame[OF r1] show ?thesis
      by auto
  next
    case False
    with unf show ?thesis by auto
  qed
qed

lemma moveNext_warnings:
  assumes "moveNext E r = Inr r'"
  shows "(\<exists>ws. warnings r' = warnings r @ ws) \<and> (ignore_invalid r \<longrightarrow> warnings r' = warnings r) \<and>
     line_number r < line_number r'"
proof -
  let ?r0 = "r\<lparr>previous_line_number := line_number r, state := HANDLED, key := [], indent := - 1\<rparr>"
  from assms(1) obtain r2 where l: "moveNext_loop E ?r0 = Inr r2" and r': "r' = at_end_of_file r2"
    by (auto simp: moveNext_def split: sum.splits)
  have "line_number r < line_number r'"
  proof (cases "Eof (input r)")
    case True
    with l have "r2 = ?r0"
      by (simp add: moveNext_loop.simps[of E ?r0])
    with True r' show ?thesis
      by (simp add: at_end_of_file_def)
  next
    case False
    with l obtain r1 where r1: "readLine E False ?r0 = Inr r1"
      and rest: "moveNext_loop E r1 = Inr r2"
      by (auto simp: moveNext_loop.simps[of E ?r0] split: sum.splits)
    from readLine_frame[OF r1] moveNext_loop_warnings[OF rest] r' show ?thesis
      by (auto simp: at_end_of_file_def)
  qed
  with moveNext_loop_warnings[OF l] r' show ?thesis by simp
qed

lemma unknownKey_loop_returns:
  "- 1 \<le> expected_indent r \<Longrightarrow> \<exists>res. unknownKey_loop E r = Some res"
proof (induction "remaining (input r)" arbitrary: r rule: less_induct)
  case less
  show ?case
  proof (cases "moveNext E r")
    case (Inl e)
    then show ?thesis by (simp add: unknownKey_loop.simps[of E r])
  next
    case (Inr r1)
    have e1: "expected_indent r1 = expected_indent r"
      using moveNext_frame[OF Inr] by simp
    show ?thesis
    proof (cases "indent r1 > expected_indent r1")
      case False
      with Inr show ?thesis by (simp add: unknownKey_loop.simps[of E r])
    next
      case True
      have "\<not> eof_seen (input r)"
        using moveNext_at_eof[OF Inr] True e1 less.prems by auto
      from moveNext_remaining[OF Inr this] less.hyps[of r1] e1 less.prems
      obtain res where "unknownKey_loop E r1 = Some res" by auto
      with Inr True show ?thesis
        by (simp add: unknownKey_loop.simps[of E r])
    qed
  qed
qed

lemma unknownKey_loop_frame_aux:
  assumes "unknownKey_loop E r = Some y"
  shows "\<forall>r'. y = Inr r' \<longrightarrow>
     expected_indent r' = expected_indent r \<and> indent r' \<le> expected_indent r \<and>
     ignore_invalid r' = ignore_invalid r \<and> file_app_version r' = file_app_version r \<and>
     previous_value r' = previous_value r \<and> filename r' = filename r \<and>
     state r' = HANDLED \<and> line_number r < line_number r' \<and>
     (\<exists>ws. warnings r' = warnings r @ ws) \<and> (ignore_invalid r \<longrightarrow> warnings r' = warnings r) \<and>
     remaining (input r') \<le> remaining (input r) \<and>
     (\<not> eof_seen (input r) \<longrightarrow> remaining (input r') < remaining (input r))"
proof (rule unknownKey_loop.raw_induct[where P = "\<lambda>E r y. \<forall>r'. y = Inr r' \<longrightarrow>
     expected_indent r' = expected_indent r \<and> indent r' \<le> expected_indent r \<and>
     ignore_invalid r' = ignore_invalid r \<and> file_app_version r' = file_app_version r \<and>
     previous_value r' = previous_value r \<and> filename r' = filename r \<and>
     state r' = HANDLED \<and> line_number r < line_number r' \<and>
     (\<exists>ws. warnings r' = warnings r @ ws) \<and> (ignore_invalid r \<longrightarrow> warnings r' = warnings r) \<and>
     remaining (input r') \<le> remaining (input r) \<and>
     (\<not> eof_seen (input r) \<longrightarrow> remaining (input r') < remaining (input r))", OF _ assms])
  fix f :: "Env \<Rightarrow> Reader \<Rightarrow> (error + Reader) option" and E r y
  assume IH: "\<And>E r y. f E r = Some y \<Longrightarrow> \<forall>r'. y = Inr r' \<longrightarrow>
     expected_indent r' = expected_indent r \<and> indent r' \<le> expected_indent r \<and>
     ignore_invalid r' = ignore_invalid r \<and> file_app_version r' = file_app_version r \<and>
     previous_value r' = previous_value r \<and> filename r' = filename r \<and>
     state r' = HANDLED \<and> line_number r < line_number r' \<and>
     (\<exists>ws. warnings r' = warnings r @ ws) \<and> (ignore_invalid r \<longrightarrow> warnings r' = warnings r) \<and>
     remaining (input r') \<le> remaining (input r) \<and>
     (\<not> eof_seen (input r) \<longrightarrow> remaining (input r') < remaining (input r))"
    and eq: "(case moveNext E r of Inl e \<Rightarrow> Some (Inl e)
      | Inr r' \<Rightarrow> if expected_indent r' < indent r' then f E r' else Some (Inr r')) = Some y"
  show "\<forall>r'. y = Inr r' \<longrightarrow>
     expected_indent r' = expected_indent r \<and> indent r' \<le> expected_indent r \<and>
     ignore_invalid r' = ignore_invalid r \<and> file_app_version r' = file_app_version r \<and>
     previous_value r' = previous_value r \<and> filename r' = filename r \<and>
     state r' = HANDLED \<and> line_number r < line_number r' \<and>
     (\<exists>ws. warnings r' = warnings r @ ws) \<and> (ignore_invalid r \<longrightarrow> warnings r' = warnings r) \<and>
     remaining (input r') \<le> remaining (input r) \<and>
     (\<not> eof_seen (input r) \<longrightarrow> remaining (input r') < remaining (input r))"
  proof (intro allI impI)
    fix r' assume y: "y = Inr r'"
    with eq obtain r1 where m: "moveNext E r = Inr r1"
      and c: "(if expected_indent r1 < indent r1 then f E r1 else Some (Inr r1)) = Some (Inr r')"
      by (auto split: sum.splits)
    note fr = moveNext_frame[OF m] moveNext_remaining_le[OF m] moveNext_warnings[OF m]
    have lt: "\<not> eof_seen (input r) \<Longrightarrow> remaining (input r1) < remaining (input r)"
      using moveNext_remaining[OF m] .
    show "expected_indent r' = expected_indent r \<and> indent r' \<le> expected_indent r \<and>
     ignore_invalid r' = ignore_invalid r \<and> file_app_version r' = file_app_version r \<and>
     previous_value r' = previous_value r \<and> filename r' = filename r \<and>
     state r' = HANDLED \<and> line_number r < line_number r' \<and>
     (\<exists>ws. warnings r' = warnings r @ ws) \<and> (ignore_invalid r \<longrightarrow> warnings r' = warnings r) \<and>
     remaining (input r') \<le> remaining (input r) \<and>
     (\<not> eof_seen (input r) \<longrightarrow> remaining (input r') < remaining (input r))"
    proof (cases "expected_indent r1 < indent r1")
      case False
      with c have "r' = r1" by simp
      with fr lt False show ?thesis by auto
    next
      case True
      with c have "f E r1 = Some (Inr r')" by simp
      from IH[OF this] fr lt show ?thesis
        by (auto simp: )
    qed
  qed
qed

lemma enterBlock_expected_indent:
  assumes "enterBlock E name r = Inr (entered, r1)"
  shows "expected_indent r1 = (if entered then expected_indent r + 1 else expected_indent r)"
proof (cases "state r = ENTERED")
  case True
  with assms obtain r0 where m: "moveNext E r = Inr r0"
    by (auto simp: enterBlock_def split: sum.splits)
  from moveNext_frame[OF m] assms True m show ?thesis
    by (auto simp: enterBlock_def split: if_splits)
next
  case False
  with assms show ?thesis
    by (auto simp: enterBlock_def split: if_splits)
qed

lemma enterAnyBlock_expected_indent:
  assumes "enterAnyBlock E r = Inr (entered, r1)"
  shows "expected_indent r1 = (if entered then expected_indent r + 1 else expected_indent r)"
proof (cases "state r = ENTERED")
  case True
  with assms obtain r0 where m: "moveNext E r = Inr r0"
    by (auto simp: enterAnyBlock_def split: sum.splits)
  from moveNext_frame[OF m] assms True m show ?thesis
    by (auto simp: enterAnyBlock_def split: if_splits)
next
  case False
  with assms show ?thesis
    by (auto simp: enterAnyBlock_def split: if_splits)
qed

lemma exitBlock_invalid:
  "\<not> 0 < expected_indent r \<Longrightarrow> exitBlock E r = Some (Inl AssertionFailed)"
  by (simp add: exitBlock_def)

lemma exitBlock_returns:
  "\<exists>res. exitBlock E r = Some res"
proof (cases "0 < expected_indent r \<and> state r \<noteq> UNHANDLED")
  case False
  then show ?thesis by (auto simp: exitBlock_def Let_def)
next
  case True
  let ?r2 = "r\<lparr>expected_indent := expected_indent r - 1, previous_value := []\<rparr>"
  show ?thesis
  proof (cases "if state r = ENTERED then moveNext E ?r2 else Inr ?r2")
    case (Inl e)
    with True show ?thesis by (auto simp: exitBlock_def Let_def)
  next
    case (Inr r3)
    then have "expected_indent r3 = expected_indent r - 1"
      by (auto dest!: moveNext_frame split: if_splits)
    with True exitBlock_loop_returns[of r3 E] obtain res where "exitBlock_loop E r3 = Some res"
      by auto
    with True Inr show ?thesis
      by (cases res) (auto simp: exitBlock_def Let_def)
  qed
qed

lemma exitBlock_Inr:
  assumes "exitBlock E r = Some (Inr r')"
  shows "0 < expected_indent r \<and> expected_indent r' = expected_indent r - 1 \<and>
         state r' = HANDLED \<and> indent r' \<le> expected_indent r' \<and>
         ignore_invalid r' = ignore_invalid r \<and> file_app_version r' = file_app_version r \<and>
         filename r' = filename r \<and> previous_value r' = [] \<and>
         remaining (input r') \<le> remaining (input r)"
proof -
  let ?r2 = "r\<lparr>expected_indent := expected_indent r - 1, previous_value := []\<rparr>"
  from assms have pre: "0 < expected_indent r" "state r \<noteq> UNHANDLED"
    by (auto simp: exitBlock_def Let_def split: if_splits)
  with assms obtain r3 r4 where
    m: "(if state r = ENTERED then moveNext E ?r2 else Inr ?r2) = Inr r3"
    and l: "exitBlock_loop E r3 = Some (Inr r4)" and r': "r' = r4\<lparr>state := HANDLED\<rparr>"
    by (auto simp: exitBlock_def Let_def split: sum.splits option.splits)
  from m have f3: "expected_indent r3 = expected_indent r - 1 \<and>
      ignore_invalid r3 = ignore_invalid r \<and> file_app_version r3 = file_app_version r \<and>
      filename r3 = filename r \<and> previous_value r3 = [] \<and>
      remaining (input r3) \<le> remaining (input r)"
    by (auto dest: moveNext_frame moveNext_remaining_le split: if_splits)
  from exitBlock_loop_frame[OF l] f3 r' pre show ?thesis
    by simp
qed

lemma getValue_skip_frame:
  "getValue_skip E r p = Inr (r', p') \<Longrightarrow>
     expected_indent r' = expected_indent r \<and> state r' = state r \<and>
     ignore_invalid r' = ignore_invalid r \<and> previous_value r' = previous_value r \<and>
     file_app_version r' = file_app_version r \<and> filename r' = filename r \<and>
     previous_line_number r' = previous_line_number r \<and> p < p'"
proof (induction E r p rule: getValue_skip.induct)
  case (1 E r p)
  from "1.prems"(1) obtain r1 where r1: "readLine E True r = Inr r1"
    by (auto simp: getValue_skip.simps[of E r] split: sum.splits)
  show ?case
  proof (cases "trim (line r1) = [] \<and> indent r1 < expected_indent r1 \<and> \<not> Eof (input r1)")
    case True
    with "1.prems"(1) r1 have "getValue_skip E r1 (p + 1) = Inr (r', p')"
      by (simp add: getValue_skip.simps[of E r])
    from "1.IH"[OF r1 True this] readLine_frame[OF r1] show ?thesis
      by simp
  next
    case False
    with "1.prems"(1) r1 have "r' = r1" "p' = p + 1"
      by (auto simp add: getValue_skip.simps[of E r])
    with readLine_frame[OF r1] show ?thesis by simp
  qed
qed

lemma getValue_loop_frame:
  "getValue_loop E r p = Inr r' \<Longrightarrow>
     expected_indent r' = expected_indent r \<and> state r' = state r \<and>
     ignore_invalid r' = ignore_invalid r \<and>
     file_app_version r' = file_app_version r \<and> filename r' = filename r \<and>
     previous_line_number r' = previous_line_number r"
proof (induction E r p rule: getValue_loop.induct)
  case (1 E r p)
  note unf = "1.prems"[unfolded getValue_loop.simps[of E r p]]
  show ?case
  proof (cases "indent r \<ge> expected_indent r \<and> \<not> Eof (input r)")
    case False
    with unf show ?thesis by auto
  next
    case True
    let ?r1 = "r\<lparr>previous_value := previous_value r @ replicate (nat p) LF @
                      drop (nat (expected_indent r)) (line r)\<rparr>"
    from True unf have ok: "\<not> (expected_indent r < 0 \<or> nat (expected_indent r) > length (line r))"
      by (auto split: if_splits)
    with True unf obtain r2 p2 where s: "getValue_skip E ?r1 0 = Inr (r2, p2)"
      and l: "getValue_loop E r2 p2 = Inr r'"
      by (auto split: sum.splits if_splits)
    from "1.IH"[OF True ok s refl l] getValue_skip_frame[OF s] show ?thesis
      by simp
  qed
qed

lemma getValue_frame:
  assumes "getValue E r = Inr (v, r')"
  shows "expected_indent r' = expected_indent r \<and> state r' = HANDLED \<and>
     ignore_invalid r' = ignore_invalid r \<and>
     file_app_version r' = file_app_version r \<and> filename r' = filename r"
proof -
  from assms have nh: "state r \<noteq> HANDLED"
    by (auto simp: getValue_def split: if_splits)
  show ?thesis
  proof (cases "state r = UNHANDLED")
    case True
    with assms nh show ?thesis by (auto simp: getValue_def)
  next
    case nu: False
    show ?thesis
    proof (cases "value_str r = []")
      case False
      with assms nh nu obtain r1 where m: "moveNext E (r\<lparr>previous_value := value_str r\<rparr>) = Inr r1"
        and r': "r' = r1"
        by (auto simp: getValue_def split: sum.splits)
      from moveNext_frame[OF m] r' show ?thesis by simp
    next
      case True
      with assms nh nu obtain r1 r2 r3 where
        a: "readLine E True (r\<lparr>previous_value := []\<rparr>) = Inr r1"
        and b: "getValue_loop E (r1\<lparr>previous_line_number := line_number r1\<rparr>) 0 = Inr r2"
        and c: "moveNext_loop E (r2\<lparr>state := HANDLED\<rparr>) = Inr r3"
        and r': "r' = (if indent (at_end_of_file r3) \<ge> expected_indent (at_end_of_file r3)
                       then warning insufficient_indent_msg (- 1) False (at_end_of_file r3)
                       else at_end_of_file r3)"
        by (auto simp: getValue_def Let_def split: sum.splits)
      from readLine_frame[OF a] getValue_loop_frame[OF b] moveNext_loop_frame[OF c] r'
      show ?thesis by simp
    qed
  qed
qed

lemma unknownKey_returns:
  "0 \<le> expected_indent r \<Longrightarrow> \<exists>res. unknownKey E r = Some res"
  using unknownKey_loop_returns[of r E]
    unknownKey_loop_returns[of "warning (''Unexpected key: '' @ [QUOTE] @ key r @ [QUOTE]) 0 False r" E]
  by (auto simp: unknownKey_def)

lemma unknownKey_cases:
  assumes "unknownKey E r = res"
  obtains (lenient) "ignore_invalid r" "unknownKey_loop E r = res"
  | (warned) "\<not> ignore_invalid r" "expected_indent r \<le> indent r"
      "unknownKey_loop E (warning (''Unexpected key: '' @ [QUOTE] @ key r @ [QUOTE]) 0 False r) = res"
  | (outer) "\<not> ignore_invalid r" "indent r < expected_indent r" "res = Some (Inr r)"
proof (cases "ignore_invalid r")
  case True
  with assms lenient show ?thesis by (simp add: unknownKey_def)
next
  case False
  show ?thesis
  proof (cases "expected_indent r \<le> indent r")
    case True
    with assms \<open>\<not> ignore_invalid r\<close> warned show ?thesis by (simp add: unknownKey_def)
  next
    case False
    with assms \<open>\<not> ignore_invalid r\<close> outer show ?thesis by (simp add: unknownKey_def)
  qed
qed

lemma unknownKey_expected_indent:
  assumes "unknownKey E r = Some (Inr r')"
  shows "expected_indent r' = expected_indent r"
  using assms
proof (cases rule: unknownKey_cases)
  case lenient
  from unknownKey_loop_frame_aux[OF lenient(2)] show ?thesis by simp
next
  case warned
  from unknownKey_loop_frame_aux[OF warned(3)] show ?thesis by simp
next
  case outer
  then show ?thesis by simp
qed

lemma handleIgnore_returns:
  "\<exists>res. handleIgnore E end_version a r = Some res"
proof (cases "enterBlock E a r")
  case (Inl e)
  then show ?thesis by (simp add: handleIgnore_def)
next
  case (Inr p)
  obtain b r1 where p: "p = (b, r1)" by (cases p)
  from exitBlock_returns[of E r1] Inr p show ?thesis
    by (cases b) (auto simp: handleIgnore_def)
qed

lemma handleIgnore_expected_indent:
  assumes "handleIgnore E end_version a r = Some (Inr r')"
  shows "expected_indent r' = expected_indent r"
proof (cases "file_app_version r < end_version")
  case False
  with assms show ?thesis by (simp add: handleIgnore_def)
next
  case True
  with assms obtain b r1 where e: "enterBlock E a r = Inr (b, r1)"
    by (cases "enterBlock E a r") (auto simp: handleIgnore_def)
  show ?thesis
  proof (cases b)
    case True
    with assms e \<open>file_app_version r < end_version\<close> have x: "exitBlock E r1 = Some (Inr r')"
      by (simp add: handleIgnore_def)
    from exitBlock_Inr[OF x] enterBlock_expected_indent[OF e] True show ?thesis
      by simp
  next
    case False
    with assms e \<open>file_app_version r < end_version\<close> have "r' = r1"
      by (simp add: handleIgnore_def)
    with enterBlock_expected_indent[OF e] False show ?thesis by simp
  qed
qed


section \<open>The byte-order mark at the start of the stream\<close>

lemma eat_utf8_bom_full_match:
  "eat_utf8_bom (inp\<lparr>bytes := CHR 0xEF # CHR 0xBB # CHR 0xBF # bs\<rparr>)
     = (True, inp\<lparr>bytes := bs\<rparr>)"
  by (simp add: eat_utf8_bom_def GetC_def)

text \<open>
  C4. A stream that starts with the byte EF followed by a byte other than BB: the
  function reads both bytes and puts back only the second, the one its variable \<open>c\<close>
  holds. The byte EF is lost, so the stream is not where it was before the call.
\<close>

theorem eat_utf8_bom_partial_match:
  "eat_utf8_bom \<lparr>bytes = [CHR 0xEF, CHR ''A''], eof_seen = False\<rparr>
     = (False, \<lparr>bytes = [CHR ''A''], eof_seen = False\<rparr>)"
  by (simp add: eat_utf8_bom_def GetC_def Ungetch_def EOF_def char_of_def)

section \<open>Enum decoding that ends without a match\<close>

text \<open>
  C10. When nothing matched (\<open>done\<close> is false) and no first candidate name is
  remembered, \<open>warnIfNotDone\<close> and \<open>errorIfNotDone\<close> both end in the internal error
  thrown by \<open>notDoneErrorMessage\<close>: no warning is recorded and no parse error is raised.
\<close>

theorem enum_not_done_without_first:
  assumes "\<not> er_done er" and "er_first er = []"
  shows "warnIfNotDone E er errors_to = Inl (InternalError ''No first value in EnumReader'') \<and>
         errorIfNotDone E er = Inl (InternalError ''No first value in EnumReader'')"
  using assms by (simp add: warnIfNotDone_def errorIfNotDone_def notDoneErrorMessage_def)

theorem enum_not_done_without_first_witness:
  "\<not> er_done \<lparr>er_read = ''purple'', er_first = [], er_done = False\<rparr> \<and>
   er_first \<lparr>er_read = ''purple'', er_first = [], er_done = False\<rparr> = [] \<and>
   warnIfNotDone example_env \<lparr>er_read = ''purple'', er_first = [], er_done = False\<rparr>
       (reader_on False ''colour'' ''purple'' [])
     = Inl (InternalError ''No first value in EnumReader'') \<and>
   errorIfNotDone example_env \<lparr>er_read = ''purple'', er_first = [], er_done = False\<rparr>
     = Inl (InternalError ''No first value in EnumReader'')"
  using enum_not_done_without_first
    [of "\<lparr>er_read = ''purple'', er_first = [], er_done = False\<rparr>" example_env
        "reader_on False ''colour'' ''purple'' []"]
  by simp

section \<open>Typed values\<close>

text \<open>
  C6. On the text \<open>v\<close> that \<open>getValue\<close> returns, \<open>handle(bool&)\<close> stores true for
  exactly \<open>true\<close>, \<open>1\<close>, \<open>yes\<close> and false for exactly \<open>false\<close>, \<open>0\<close>, \<open>no\<close>
  (compared as they are written), recording nothing; for any other text it appends one
  warning and the destination keeps its old content \<open>b\<close>.
\<close>

theorem handle_bool_tokens:
  assumes "getValue E r = Inr (v, r1)"
  shows "handle_bool E b r =
           (if v \<in> {''true'', ''1'', ''yes''} then Inr (True, r1)
            else if v \<in> {''false'', ''0'', ''no''} then Inr (False, r1)
            else Inr (b, r1\<lparr>warnings := warnings r1 @
                    [(default_line E r1, expected_boolean_msg v)]\<rparr>))"
  using assms by (simp add: handle_bool_def warning_default_eq)

theorem handle_bool_tokens_witness:
  "\<exists>r1. getValue example_env (reader_on False ''flag'' ''True'' []) = Inr (''True'', r1) \<and>
     handle_bool example_env False (reader_on False ''flag'' ''True'' []) =
       Inr (False, r1\<lparr>warnings := warnings r1 @ [(1, expected_boolean_msg ''True'')]\<rparr>)"
proof -
  have "map_sum id fst (getValue example_env (reader_on False ''flag'' ''True'' [])) = Inr ''True''"
    by code_simp
  then obtain r1
    where g: "getValue example_env (reader_on False ''flag'' ''True'' []) = Inr (''True'', r1)"
    by (cases "getValue example_env (reader_on False ''flag'' ''True'' [])") auto
  have "map_sum id (previous_line_number \<circ> snd)
          (getValue example_env (reader_on False ''flag'' ''True'' [])) = Inr 1"
    by code_simp
  with g have p: "default_line example_env r1 = 1"
    by (simp add: default_line_def example_env_def)
  from handle_bool_tokens[OF g, of False] p g show ?thesis
    by simp
qed

text \<open>
  C5, as the code has it. When \<open>ToLong\<close> succeeds with a negative \<open>l\<close>, one warning
  is recorded and the field receives \<open>|l|\<close> converted to \<open>unsigned int\<close>, that is
  \<open>|l|\<close> modulo \<open>2^32\<close>: the absolute value itself when it is below \<open>2^32\<close>. When
  \<open>ToLong\<close> fails and leaves \<open>l\<close> at 0, one warning is recorded and the field
  receives 0.
\<close>

theorem handle_unsigned_int_negative_or_unparsed:
  assumes "getValue E r = Inr (v, r1)"
  shows "(ToLong E v 0 = (True, l) \<and> l < 0 \<longrightarrow>
            handle_unsigned_int E r =
              Inr (word_of_int (- l),
                   r1\<lparr>warnings := warnings r1 @
                     [(default_line E r1, ''Expected non-negative integer instead of '' @
                         format_int (sint (word_of_int l :: 32 word)))]\<rparr>) \<and>
            uint (word_of_int (- l) :: 32 word) = (- l) mod 2 ^ 32 \<and>
            (- l < 2 ^ 32 \<longrightarrow> uint (word_of_int (- l) :: 32 word) = - l)) \<and>
         (ToLong E v 0 = (False, 0) \<longrightarrow>
            handle_unsigned_int E r =
              Inr (0, r1\<lparr>warnings := warnings r1 @
                     [(default_line E r1, ''Expected non-negative integer instead of '' @
                         [QUOTE] @ v @ [QUOTE])]\<rparr>))"
proof -
  have pv: "previous_value r1 = v"
    using assms by (rule getValue_previous_value)
  have m: "uint (word_of_int (- l) :: 32 word) = (- l) mod 2 ^ 32"
    by (subst uint_word_of_int) simp
  show ?thesis
    using assms pv m
    by (auto simp: handle_unsigned_int_def warning_default_eq)
qed

theorem handle_unsigned_int_negative_or_unparsed_witness:
  "\<exists>r1. getValue example_env (reader_on False ''count'' ''-5'' []) = Inr (''-5'', r1) \<and>
     ToLong example_env ''-5'' 0 = (True, - 5) \<and> (- 5 :: int) < 0 \<and> - (- 5 :: int) < 2 ^ 32 \<and>
     handle_unsigned_int example_env (reader_on False ''count'' ''-5'' []) =
       Inr (5, r1\<lparr>warnings := warnings r1 @
                [(1, ''Expected non-negative integer instead of -5'')]\<rparr>) \<and>
     uint (5 :: 32 word) = 5"
proof -
  have "map_sum id fst (getValue example_env (reader_on False ''count'' ''-5'' [])) = Inr ''-5''"
    by code_simp
  then obtain r1 where g: "getValue example_env (reader_on False ''count'' ''-5'' []) = Inr (''-5'', r1)"
    by (cases "getValue example_env (reader_on False ''count'' ''-5'' [])") auto
  have "map_sum id (previous_line_number \<circ> snd) (getValue example_env (reader_on False ''count'' ''-5'' [])) = Inr 1"
    by code_simp
  with g have p: "default_line example_env r1 = 1"
    by (simp add: default_line_def example_env_def)
  have t: "ToLong example_env ''-5'' 0 = (True, - 5)"
    by code_simp
  have f: "format_int (sint (word_of_int (- 5) :: 32 word)) = ''-5''"
    by code_simp
  have u: "uint (5 :: 32 word) = 5"
    by simp
  from t have c: "ToLong example_env ''-5'' 0 = (True, - 5) \<and> (- 5 :: int) < 0"
    by simp
  from handle_unsigned_int_negative_or_unparsed[OF g, of "- 5"] c
  have "handle_unsigned_int example_env (reader_on False ''count'' ''-5'' []) =
          Inr (word_of_int (- (- 5)),
               r1\<lparr>warnings := warnings r1 @
                 [(default_line example_env r1, ''Expected non-negative integer instead of '' @
                     format_int (sint (word_of_int (- 5) :: 32 word)))]\<rparr>)"
    by blast
  then have "handle_unsigned_int example_env (reader_on False ''count'' ''-5'' []) =
       Inr (5, r1\<lparr>warnings := warnings r1 @
                [(1, ''Expected non-negative integer instead of -5'')]\<rparr>)"
    by (simp only: p f) simp
  with g t u show ?thesis
    by simp
qed

text \<open>
  On a 64-bit \<open>long\<close> the text \<open>-4294967301\<close> parses, and the field receives 5, not
  4294967301.
\<close>

theorem handle_unsigned_int_wraps:
  "ToLong example_env ''-4294967301'' 0 = (True, - 4294967301) \<and>
   map_sum id (uint \<circ> fst)
     (handle_unsigned_int example_env (reader_on False ''count'' ''-4294967301'' [])) = Inr 5"
  by code_simp

text \<open>
  C8, the date-time half: a text that \<open>ParseDateTime\<close> rejects, or parses only in part,
  ends the read with a parse error.
\<close>

lemma handle_DateTime_fatal:
  assumes "getValue E r = Inr (str, r1)"
    and "ParseDateTime str = None \<or> (\<exists>d n. ParseDateTime str = Some (d, n) \<and> n \<noteq> length str)"
  shows "handle_DateTime E ParseDateTime r = Inl (ParseError ''Expected a date and time'')"
  using assms by (auto simp: handle_DateTime_def)

lemma handle_Vector2D_count:
  assumes "getValue E r = Inr (str, r1)" and "wxSscanf str vec = (n, vec')"
  shows "handle_Vector2D E wxSscanf vec r =
           (if n = 0 then Inl (ParseError ''Expected (x,y)'') else Inr (vec', r1))"
  using assms by (simp add: handle_Vector2D_def)

text \<open>
  C8, the point half. The text \<open>(1\<close> is not of the form \<open>(x,y)\<close>; \<open>wxSscanf\<close>
  converts one number and returns 1, which the test \<open>!wxSscanf(...)\<close> takes for
  success: no error is raised, \<open>x\<close> becomes 1 and \<open>y\<close> keeps its old content.
\<close>

theorem handle_Vector2D_partial_match:
  "map_sum id fst
     (handle_Vector2D example_env sscanf_point (Decimal 0 0, Decimal 0 0)
        (reader_on False ''position'' ''(1'' []))
     = Inr (Decimal 1 0, Decimal 0 0)"
  by code_simp

section \<open>The expected nesting level\<close>

text \<open>
  C3. \<open>enterBlock\<close> and \<open>enterAnyBlock\<close> add exactly 1 to \<open>expected_indent\<close> when
  they return true and leave it as it was when they return false. \<open>exitBlock\<close> always
  returns; it fails its assertion unless \<open>expected_indent\<close> is greater than zero, and
  otherwise subtracts exactly 1, so an entry followed by an exit gives the level before
  the entry. No operation of the reader makes a level that is not negative negative.
\<close>

theorem expected_indent_nesting:
  "(enterBlock E name r = Inr (entered, r1) \<longrightarrow>
      expected_indent r1 = (if entered then expected_indent r + 1 else expected_indent r)) \<and>
   (enterAnyBlock E r = Inr (entered, r1) \<longrightarrow>
      expected_indent r1 = (if entered then expected_indent r + 1 else expected_indent r)) \<and>
   (\<exists>res. exitBlock E r = Some res) \<and>
   (\<not> 0 < expected_indent r \<longrightarrow> exitBlock E r = Some (Inl AssertionFailed)) \<and>
   (exitBlock E r = Some (Inr r2) \<longrightarrow>
      0 < expected_indent r \<and> expected_indent r2 = expected_indent r - 1 \<and>
      0 \<le> expected_indent r2) \<and>
   ((enterBlock E name r = Inr (True, r1) \<or> enterAnyBlock E r = Inr (True, r1)) \<and>
      exitBlock E r1 = Some (Inr r2) \<longrightarrow> expected_indent r2 = expected_indent r) \<and>
   (0 \<le> expected_indent r \<and>
      (enterBlock E name r = Inr (entered, r1) \<or> enterAnyBlock E r = Inr (entered, r1) \<or>
       exitBlock E r = Some (Inr r1) \<or> getValue E r = Inr (v, r1) \<or>
       unknownKey E r = Some (Inr r1) \<or> handleIgnore E end_version name r = Some (Inr r1) \<or>
       moveNext E r = Inr r1 \<or> unhandle r = Inr r1)
      \<longrightarrow> 0 \<le> expected_indent r1)"
proof (intro conjI impI)
  show "\<exists>res. exitBlock E r = Some res"
    by (rule exitBlock_returns)
next
  assume "enterBlock E name r = Inr (entered, r1)"
  then show "expected_indent r1 = (if entered then expected_indent r + 1 else expected_indent r)"
    by (rule enterBlock_expected_indent)
next
  assume "enterAnyBlock E r = Inr (entered, r1)"
  then show "expected_indent r1 = (if entered then expected_indent r + 1 else expected_indent r)"
    by (rule enterAnyBlock_expected_indent)
next
  assume "\<not> 0 < expected_indent r"
  then show "exitBlock E r = Some (Inl AssertionFailed)"
    by (rule exitBlock_invalid)
next
  assume x: "exitBlock E r = Some (Inr r2)"
  from exitBlock_Inr[OF x] show "0 < expected_indent r"
    and "expected_indent r2 = expected_indent r - 1" and "0 \<le> expected_indent r2"
    by simp_all
next
  assume a: "(enterBlock E name r = Inr (True, r1) \<or> enterAnyBlock E r = Inr (True, r1)) \<and>
      exitBlock E r1 = Some (Inr r2)"
  then have "expected_indent r1 = expected_indent r + 1"
    by (auto dest: enterBlock_expected_indent enterAnyBlock_expected_indent)
  with a exitBlock_Inr[of E r1 r2] show "expected_indent r2 = expected_indent r"
    by simp
next
  assume a: "0 \<le> expected_indent r \<and>
      (enterBlock E name r = Inr (entered, r1) \<or> enterAnyBlock E r = Inr (entered, r1) \<or>
       exitBlock E r = Some (Inr r1) \<or> getValue E r = Inr (v, r1) \<or>
       unknownKey E r = Some (Inr r1) \<or> handleIgnore E end_version name r = Some (Inr r1) \<or>
       moveNext E r = Inr r1 \<or> unhandle r = Inr r1)"
  then consider "enterBlock E name r = Inr (entered, r1)" | "enterAnyBlock E r = Inr (entered, r1)"
    | "exitBlock E r = Some (Inr r1)" | "getValue E r = Inr (v, r1)"
    | "unknownKey E r = Some (Inr r1)" | "handleIgnore E end_version name r = Some (Inr r1)"
    | "moveNext E r = Inr r1" | "unhandle r = Inr r1"
    by blast
  then show "0 \<le> expected_indent r1"
  proof cases
    case 1
    from enterBlock_expected_indent[OF 1] a show ?thesis by (simp split: if_splits)
  next
    case 2
    from enterAnyBlock_expected_indent[OF 2] a show ?thesis by (simp split: if_splits)
  next
    case 3
    from exitBlock_Inr[OF 3] show ?thesis by simp
  next
    case 4
    from getValue_frame[OF 4] a show ?thesis by simp
  next
    case 5
    from unknownKey_expected_indent[OF 5] a show ?thesis by simp
  next
    case 6
    from handleIgnore_expected_indent[OF 6] a show ?thesis by simp
  next
    case 7
    from moveNext_frame[OF 7] a show ?thesis by simp
  next
    case 8
    with a show ?thesis by (auto simp: unhandle_def split: if_splits)
  qed
qed

theorem expected_indent_nesting_witness:
  "\<exists>r1 r2.
     enterBlock example_env ''extra'' (first_line False extra_block_doc) = Inr (True, r1) \<and>
     exitBlock example_env r1 = Some (Inr r2) \<and>
     expected_indent (first_line False extra_block_doc) = 0 \<and>
     expected_indent r1 = 1 \<and> expected_indent r2 = 0 \<and> key r2 = ''name'' \<and>
     exitBlock example_env (first_line False extra_block_doc) = Some (Inl AssertionFailed)"
proof -
  let ?r = "first_line False extra_block_doc"
  have e0: "expected_indent ?r = 0"
    by code_simp
  have "map_sum id fst (enterBlock example_env ''extra'' ?r) = Inr True"
    by code_simp
  then obtain r1 where e: "enterBlock example_env ''extra'' ?r = Inr (True, r1)"
    by (cases "enterBlock example_env ''extra'' ?r") auto
  have "map_option (map_sum id key)
          (exitBlock example_env (snd (projr (enterBlock example_env ''extra'' ?r)))) = Some (Inr ''name'')"
    by code_simp
  with e obtain r2 where x: "exitBlock example_env r1 = Some (Inr r2)" and k: "key r2 = ''name''"
    by (cases "exitBlock example_env r1"; cases "the (exitBlock example_env r1)") auto
  note t = expected_indent_nesting[of example_env "''extra''" ?r True r1 r2]
  from t e have e1: "expected_indent r1 = 1"
    by (simp add: e0)
  from t e x have e2: "expected_indent r2 = 0"
    by (simp add: e0)
  from t e0 have "exitBlock example_env ?r = Some (Inl AssertionFailed)"
    by simp
  with e x e0 e1 e2 k show ?thesis
    by blast
qed

section \<open>Multi-line values\<close>


definition plain :: "String \<Rightarrow> bool" where
  "plain l = (CR \<notin> set l \<and> LF \<notin> set l)"







definition key_text :: "String \<Rightarrow> bool" where
  "key_text l = (\<not> only_blanks l \<and> \<not> is_comment l (count_tabs l) \<and>
                 find_first_of (CHR '':'') (count_tabs l) l \<noteq> None)"

definition on_line :: "Reader \<Rightarrow> String \<Rightarrow> wxInputStream \<Rightarrow> Reader \<Rightarrow> bool" where
  "on_line r l inp r' =
     (line r' = l \<and> indent r' = int (count_tabs l) \<and> input r' = inp \<and>
      previous_value r' = previous_value r \<and> expected_indent r' = expected_indent r \<and>
      warnings r' = warnings r \<and> state r' = state r \<and>
      ignore_invalid r' = ignore_invalid r \<and> file_app_version r' = file_app_version r \<and>
      (if only_blanks l then key r' = [] else if key_text l then key r' \<noteq> [] else True))"

lemma read_key_in_string [simp]:
  "indent (read_key E True k r) = indent r"
  "warnings (read_key E True k r) = warnings r"
  by (simp_all add: read_key_def)

lemma read_value_in_string [simp]:
  "warnings (read_value True pos r) = warnings r"
  by (simp add: read_value_def split: option.split)





lemma on_line_update [simp]:
  "on_line (r\<lparr>previous_line_number := n\<rparr>) l inp r' = on_line r l inp r'"
  by (simp add: on_line_def)








text \<open>
  The lines of a text block at nesting level \<open>e\<close>: every item is a content line,
  \<open>e\<close> tabs and then \<open>body\<close> (which may be blank or start with more tabs), and the
  blank lines with fewer than \<open>e\<close> tabs that follow it. \<open>block_value\<close> is the text the
  spec describes: the bodies, with one newline between two of them and one more for every
  blank line between them. The block is followed by the end of the stream or by a key
  line \<open>T\<close> with fewer than \<open>e\<close> tabs (\<open>tail_ok\<close>).
\<close>

definition tabs :: "nat \<Rightarrow> String" where
  "tabs n = replicate n TAB"

definition lines_bytes :: "char list \<Rightarrow> String list \<Rightarrow> char list" where
  "lines_bytes nl ls = concat (map (\<lambda>l. l @ nl) ls)"


lemma lines_bytes_simps [simp]:
  "lines_bytes nl [] = []"
  "lines_bytes nl (l # ls) = l @ nl @ lines_bytes nl ls"
  "lines_bytes nl (ls @ ls') = lines_bytes nl ls @ lines_bytes nl ls'"
  by (simp_all add: lines_bytes_def)





definition block_lines :: "nat \<Rightarrow> (String \<times> String list) list \<Rightarrow> String list" where
  "block_lines e items = concat (map (\<lambda>(body, gaps). (tabs e @ body) # gaps) items)"




lemma block_lines_simps [simp]:
  "block_lines e [] = []"
  "block_lines e ((body, gaps) # items) = (tabs e @ body) # gaps @ block_lines e items"
  by (simp_all add: block_lines_def)







lemma length_tabs [simp]: "length (tabs e) = e"
  by (simp add: tabs_def)

lemma plain_tabs [simp]: "plain (tabs e @ body) = plain body"
  by (auto simp: plain_def tabs_def TAB_def CR_def LF_def)














text \<open>
  A last line that the end of the stream cuts off, with no line break, is not part of
  the text: the loop tests \<open>Eof\<close> before it appends the line.
\<close>

lemma getValue_unterminated_last_line:
  "map_sum id fst
     (getValue example_env
        (reader_on False ''description'' [] ([TAB] @ ''Line one'' @ [LF] @ [TAB] @ ''Line two'')))
     = Inr ''Line one''"
  by code_simp

end
